theory Spec2Isabelle
  imports Main "HOL-Library.Word"
begin

section \<open>The allocator of mymalloc.c\<close>

text \<open>
  The allocator keeps one singly linked list of block headers, reached from the global
  \<^verbatim>\<open>head\<close>. The model is for an LP64 target: \<^verbatim>\<open>size_t\<close>, \<^verbatim>\<open>long\<close> and pointers
  are 64-bit words, \<^verbatim>\<open>int\<close> is a 32-bit word, and \<^verbatim>\<open>sizeof(block_t)\<close> is 24
  (8 + 8 + 4 bytes and 4 bytes of padding). All arithmetic wraps as the C arithmetic does.

  One call runs at a time: threads are not modelled. The two mutexes are part of the state
  all the same, because a call that returns with a mutex locked makes a later call wait
  for it for ever.
\<close>

type_synonym addr = "64 word"
type_synonym size_t = "64 word"

subsection \<open>Data\<close>

text \<open>\<^verbatim>\<open>struct block\<close>: the fields carry the suffix \<open>_b\<close>.\<close>

record block_t =
  size_b :: size_t
  next_b :: addr
  free_b :: "32 word"

definition BLOCK_SIZE :: size_t where
  "BLOCK_SIZE = 24"

definition NULL :: addr where
  "NULL = 0"

text \<open>\<^verbatim>\<open>MAP_FAILED\<close> and the failure value of \<^verbatim>\<open>sbrk\<close> are both \<^verbatim>\<open>(void *) -1\<close>.\<close>

definition MAP_FAILED :: addr where
  "MAP_FAILED = - 1"

text \<open>
  The process state the allocator reads and writes: the global \<^verbatim>\<open>head\<close>, the headers
  in memory (a store from addresses to headers; reading or updating a header at an
  address that holds none is a segmentation fault; headers at different addresses are
  different objects, overlaps between them are not modelled), the program
  break that \<^verbatim>\<open>sbrk\<close> moves, the bytes of the regions handed to callers (what \<^verbatim>\<open>memset\<close>
  writes), and the two mutexes (\<open>True\<close> is locked).
\<close>

record alloc_state =
  head :: addr
  heap :: "addr \<rightharpoonup> block_t"
  brk :: addr
  mem :: "addr \<Rightarrow> 8 word"
  memChange :: bool
  listChange :: bool

text \<open>
  What the operating system answers during one call of the allocator: whether
  \<^verbatim>\<open>sbrk\<close> grants the extension it is asked for, what \<^verbatim>\<open>mmap\<close> returns
  (\<open>MAP_FAILED\<close> when it refuses), and the page size that \<^verbatim>\<open>sysconf\<close> reports.
  A call of \<^verbatim>\<open>mymalloc\<close> asks for at most one extension or one mapping.
\<close>

record os_env =
  sbrk_ok :: bool
  mmap_ret :: addr
  PAGE_SIZE :: "64 word"

text \<open>
  How a call ends. \<open>None\<close>: it never returns (the list is cyclic, or it waits for a
  mutex that is already locked). \<open>Some (Inl e)\<close>: the process is stopped by a signal.
  \<open>Some (Inr (v, st))\<close>: it returns \<open>v\<close> in state \<open>st\<close>.
\<close>

datatype error = SIGSEGV | SIGFPE

type_synonym 'a ret = "(error + 'a \<times> alloc_state) option"

subsection \<open>Bootstrap\<close>

text \<open>
  \<^verbatim>\<open>sbrk(0)\<close> reads the program break. \<^verbatim>\<open>sbrk(s + BLOCK_SIZE)\<close> either fails, or moves the
  break by its argument; the argument is a signed \<^verbatim>\<open>intptr_t\<close>, so a sum that has wrapped
  around moves the break down, which is what adding the 64-bit words does. When \<^verbatim>\<open>sbrk\<close>
  fails, \<^verbatim>\<open>init_mem\<close> and \<^verbatim>\<open>expandHeap\<close> return without unlocking \<^verbatim>\<open>memChange\<close>.
\<close>

definition init_mem :: "size_t \<Rightarrow> os_env \<Rightarrow> alloc_state \<Rightarrow> addr ret" where
  "init_mem s os st =
     (if memChange st then None
      else
        let st1 = st\<lparr>memChange := True\<rparr>;
            pt = brk st1
        in if \<not> sbrk_ok os then Some (Inr (NULL, st1))
           else
             let st2 = st1\<lparr>brk := brk st1 + (s + BLOCK_SIZE), memChange := False\<rparr>
             in if listChange st2 then None
                else
                  let st3 = st2\<lparr>listChange := True\<rparr>;
                      st4 = st3\<lparr>head := pt,
                                heap := (heap st3)(pt \<mapsto> \<lparr>size_b = s, next_b = NULL, free_b = 0\<rparr>)\<rparr>
                  in Some (Inr (head st4, st4\<lparr>listChange := False\<rparr>)))"

subsection \<open>Segment growth\<close>

definition expandHeap :: "size_t \<Rightarrow> addr \<Rightarrow> os_env \<Rightarrow> alloc_state \<Rightarrow> addr ret" where
  "expandHeap s last_b os st =
     (if memChange st then None
      else
        let st1 = st\<lparr>memChange := True\<rparr>;
            pt = brk st1
        in if \<not> sbrk_ok os then Some (Inr (NULL, st1))
           else
             let st2 = st1\<lparr>brk := brk st1 + (s + BLOCK_SIZE), memChange := False\<rparr>
             in if listChange st2 then None
                else
                  let st3 = st2\<lparr>listChange := True\<rparr>;
                      expanded = pt
                  in case heap st3 last_b of
                       None \<Rightarrow> Some (Inl SIGSEGV)
                     | Some lb \<Rightarrow>
                         let h1 = (heap st3)(last_b \<mapsto> lb\<lparr>next_b := expanded\<rparr>);
                             h2 = h1(expanded \<mapsto> \<lparr>size_b = s, next_b = NULL, free_b = 0\<rparr>)
                         in Some (Inr (expanded, st3\<lparr>heap := h2, listChange := False\<rparr>)))"

subsection \<open>Direct mapping\<close>

text \<open>
  \<^verbatim>\<open>PAGE_SIZE\<close> is \<^verbatim>\<open>sysconf(_SC_PAGE_SIZE)\<close>, a \<^verbatim>\<open>long\<close> that the comparisons and the
  division with a \<^verbatim>\<open>size_t\<close> convert to unsigned. A division by a page size of zero
  stops the process.
\<close>

text \<open>
  \<^verbatim>\<open>int totPage = (s + BLOCK_SIZE) / PAGE_SIZE\<close>, plus one when the division leaves a
  remainder: the quotient of two 64-bit unsigned values, cut to an \<^verbatim>\<open>int\<close>.
\<close>

definition totPage :: "size_t \<Rightarrow> 64 word \<Rightarrow> 32 word" where
  "totPage s pg =
     (let t = (ucast ((s + BLOCK_SIZE) div pg) :: 32 word)
      in if (s + BLOCK_SIZE) mod pg \<noteq> 0 then t + 1 else t)"

text \<open>
  \<^verbatim>\<open>totPage * PAGE_SIZE\<close> multiplies an \<^verbatim>\<open>int\<close> by a \<^verbatim>\<open>long\<close>: the \<^verbatim>\<open>int\<close> is
  sign-extended. The subtractions and the comparison that follow are unsigned.
\<close>

definition mapped_bytes :: "size_t \<Rightarrow> 64 word \<Rightarrow> 64 word" where
  "mapped_bytes s pg = scast (totPage s pg) * pg"

definition no_split :: "size_t \<Rightarrow> 64 word \<Rightarrow> bool" where
  "no_split s pg \<longleftrightarrow>
     (s + BLOCK_SIZE) mod pg = 0 \<or> mapped_bytes s pg - s - BLOCK_SIZE < BLOCK_SIZE + 1"

definition allocMap :: "size_t \<Rightarrow> addr \<Rightarrow> os_env \<Rightarrow> alloc_state \<Rightarrow> addr ret" where
  "allocMap s last_b os st =
     (if memChange st then None
      else
        let pt = mmap_ret os
        in if pt = MAP_FAILED then Some (Inr (NULL, st))
           else if PAGE_SIZE os = 0 then Some (Inl SIGFPE)
           else if listChange st then None
           else
             let st1 = st\<lparr>listChange := True\<rparr>
             in case heap st1 last_b of
                  None \<Rightarrow> Some (Inl SIGSEGV)
                | Some lb \<Rightarrow>
                    if no_split s (PAGE_SIZE os) then
                      let expanded = pt;
                          h1 = (heap st1)(last_b \<mapsto> lb\<lparr>next_b := expanded\<rparr>);
                          h2 = h1(expanded \<mapsto> \<lparr>size_b = s, next_b = NULL, free_b = 0\<rparr>)
                      in Some (Inr (expanded, st1\<lparr>heap := h2, listChange := False\<rparr>))
                    else
                      let split1 = pt;
                          split2 = pt + s + BLOCK_SIZE;
                          h1 = (heap st1)(last_b \<mapsto> lb\<lparr>next_b := split1\<rparr>);
                          h2 = h1(split1 \<mapsto> \<lparr>size_b = s, next_b = split2, free_b = 0\<rparr>);
                          h3 = h2(split2 \<mapsto>
                                 \<lparr>size_b = mapped_bytes s (PAGE_SIZE os) - s - 2 * BLOCK_SIZE,
                                  next_b = NULL, free_b = 1\<rparr>)
                      in Some (Inr (split1, st1\<lparr>heap := h3, listChange := False\<rparr>)))"

subsection \<open>List search\<close>

text \<open>
  The \<^verbatim>\<open>while\<close> loop of \<^verbatim>\<open>nextBlock\<close>. It ends either by the \<^verbatim>\<open>return i\<close> in its
  body (\<open>Return\<close>), after marking the block in use and unlocking, or by its condition
  (\<open>Exit\<close>), with \<open>i\<close> at the block whose \<^verbatim>\<open>next\<close> is null.
\<close>

datatype loop_end = Return addr | Exit addr

definition fits :: "size_t \<Rightarrow> block_t \<Rightarrow> bool" where
  "fits s b \<longleftrightarrow> free_b b \<noteq> 0 \<and> s \<le> size_b b"

partial_function (option) nextBlock_loop ::
  "size_t \<Rightarrow> addr \<Rightarrow> alloc_state \<Rightarrow> (error + loop_end \<times> alloc_state) option" where
  "nextBlock_loop s i st =
     (case heap st i of
        None \<Rightarrow> Some (Inl SIGSEGV)
      | Some b \<Rightarrow>
          if next_b b \<noteq> NULL then
            if fits s b then
              Some (Inr (Return i,
                         st\<lparr>heap := (heap st)(i \<mapsto> b\<lparr>free_b := 0\<rparr>), listChange := False\<rparr>))
            else nextBlock_loop s (next_b b) st
          else Some (Inr (Exit i, st)))"

definition nextBlock :: "size_t \<Rightarrow> os_env \<Rightarrow> alloc_state \<Rightarrow> addr ret" where
  "nextBlock s os st =
     (if listChange st then None
      else
        case nextBlock_loop s (head st) (st\<lparr>listChange := True\<rparr>) of
          None \<Rightarrow> None
        | Some (Inl e) \<Rightarrow> Some (Inl e)
        | Some (Inr (Return i, st1)) \<Rightarrow> Some (Inr (i, st1))
        | Some (Inr (Exit i, st1)) \<Rightarrow>
            (case heap st1 i of
               None \<Rightarrow> Some (Inl SIGSEGV)
             | Some b \<Rightarrow>
                 if fits s b then
                   Some (Inr (i, st1\<lparr>heap := (heap st1)(i \<mapsto> b\<lparr>free_b := 0\<rparr>),
                                     listChange := False\<rparr>))
                 else
                   let st2 = st1\<lparr>listChange := False\<rparr>
                   in if PAGE_SIZE os \<le> s + BLOCK_SIZE then allocMap s i os st2
                      else expandHeap s i os st2))"

subsection \<open>The public operations\<close>

text \<open>
  \<^verbatim>\<open>(block_t *) p + 1\<close> is \<open>p + BLOCK_SIZE\<close>. The messages written by \<^verbatim>\<open>perror\<close>
  and \<^verbatim>\<open>debug_printf\<close> are not part of the state.
\<close>

definition mymalloc :: "size_t \<Rightarrow> os_env \<Rightarrow> alloc_state \<Rightarrow> addr ret" where
  "mymalloc s os st =
     (if listChange st then None
      else if head st = NULL then
        (case init_mem s os st of
           None \<Rightarrow> None
         | Some (Inl e) \<Rightarrow> Some (Inl e)
         | Some (Inr (p, st1)) \<Rightarrow> Some (Inr (p + BLOCK_SIZE, st1)))
      else
        (case nextBlock s os st of
           None \<Rightarrow> None
         | Some (Inl e) \<Rightarrow> Some (Inl e)
         | Some (Inr (next_p, st1)) \<Rightarrow>
             if next_p = NULL then Some (Inr (NULL, st1))
             else Some (Inr (next_p + BLOCK_SIZE, st1))))"

text \<open>\<^verbatim>\<open>memset(p, c, n)\<close> writes \<open>c\<close> to the \<open>n\<close> bytes from \<open>p\<close> on.\<close>

definition memset :: "addr \<Rightarrow> 8 word \<Rightarrow> size_t \<Rightarrow> alloc_state \<Rightarrow> alloc_state" where
  "memset p c n st = st\<lparr>mem := (\<lambda>a. if a - p < n then c else mem st a)\<rparr>"

definition mycalloc :: "size_t \<Rightarrow> size_t \<Rightarrow> os_env \<Rightarrow> alloc_state \<Rightarrow> addr ret" where
  "mycalloc nmemb s os st =
     (let total = nmemb * s
      in case mymalloc total os st of
           None \<Rightarrow> None
         | Some (Inl e) \<Rightarrow> Some (Inl e)
         | Some (Inr (rslt, st1)) \<Rightarrow> Some (Inr (rslt, memset rslt 0 total st1)))"

definition myfree :: "addr \<Rightarrow> alloc_state \<Rightarrow> unit ret" where
  "myfree ptr st =
     (let current = ptr - BLOCK_SIZE
      in case heap st current of
           None \<Rightarrow> Some (Inl SIGSEGV)
         | Some b \<Rightarrow> Some (Inr ((), st\<lparr>heap := (heap st)(current \<mapsto> b\<lparr>free_b := 1\<rparr>)\<rparr>)))"

subsection \<open>The list as a sequence of addresses\<close>

text \<open>
  \<open>chain h a xs\<close>: following \<^verbatim>\<open>next\<close> from \<open>a\<close> visits exactly the headers at
  \<open>xs\<close>, in this order, and then reaches \<open>NULL\<close>. The empty list is the
  uninitialised \<^verbatim>\<open>head\<close>.
\<close>

fun chain :: "(addr \<rightharpoonup> block_t) \<Rightarrow> addr \<Rightarrow> addr list \<Rightarrow> bool" where
  "chain h a [] = (a = NULL)"
| "chain h a (x # xs) =
     (a = x \<and> a \<noteq> NULL \<and> (case h a of None \<Rightarrow> False | Some b \<Rightarrow> chain h (next_b b) xs))"

definition fits_at :: "(addr \<rightharpoonup> block_t) \<Rightarrow> size_t \<Rightarrow> addr \<Rightarrow> bool" where
  "fits_at h s a = (case h a of None \<Rightarrow> False | Some b \<Rightarrow> fits s b)"

definition take_block :: "addr \<Rightarrow> alloc_state \<Rightarrow> alloc_state" where
  "take_block a st =
     (case heap st a of None \<Rightarrow> st
      | Some b \<Rightarrow> st\<lparr>heap := (heap st)(a \<mapsto> b\<lparr>free_b := 0\<rparr>), listChange := False\<rparr>)"

text \<open>
  The test for a single header as the specification words it, over the integers: the
  rounded page total exactly covers the request and its header, or what is left after
  subtracting \<open>s\<close> and two header sizes is smaller than the header size plus one. (The
  code subtracts one header size: \<open>no_split\<close>.)
\<close>

definition spec_no_remainder :: "size_t \<Rightarrow> 64 word \<Rightarrow> bool" where
  "spec_no_remainder s pg \<longleftrightarrow>
     int (unat (mapped_bytes s pg)) = int (unat s) + int (unat BLOCK_SIZE) \<or>
     int (unat (mapped_bytes s pg)) - int (unat s) - 2 * int (unat BLOCK_SIZE)
       < int (unat BLOCK_SIZE) + 1"

text \<open>
  The addresses at which a call \<^verbatim>\<open>mymalloc(s)\<close> writes new headers, in a state whose list
  is \<open>xs\<close>: none when a block is reused or the operating system refuses, the old program
  break for the bootstrap and for segment growth, the mapped address for a direct mapping,
  followed by the address of the second header when the mapping is split.
\<close>

definition new_headers :: "size_t \<Rightarrow> os_env \<Rightarrow> alloc_state \<Rightarrow> addr list \<Rightarrow> addr list" where
  "new_headers s os st xs =
     (if xs = [] then (if sbrk_ok os then [brk st] else [])
      else if find (fits_at (heap st) s) xs \<noteq> None then []
      else if PAGE_SIZE os \<le> s + BLOCK_SIZE then
        (if mmap_ret os = MAP_FAILED then []
         else if no_split s (PAGE_SIZE os) then [mmap_ret os]
         else [mmap_ret os, mmap_ret os + s + BLOCK_SIZE])
      else (if sbrk_ok os then [brk st] else []))"


text \<open>
  What the loop of \<^verbatim>\<open>nextBlock\<close> guarantees about its result when it ends, whatever the
  shape of the list: the block it stops at holds a header, and the state is unchanged
  except for the block it returns from its body.
\<close>

definition loop_post :: "alloc_state \<Rightarrow> error + loop_end \<times> alloc_state \<Rightarrow> bool" where
  "loop_post st y =
     (case y of
        Inl e \<Rightarrow> True
      | Inr (Return j, st') \<Rightarrow>
          (\<exists>b. heap st j = Some b \<and>
             st' = st\<lparr>heap := (heap st)(j \<mapsto> b\<lparr>free_b := 0\<rparr>), listChange := False\<rparr>)
      | Inr (Exit j, st') \<Rightarrow> (\<exists>b. heap st j = Some b) \<and> st' = st)"

text \<open>
  Calls of the public operations, and the state after a sequence of calls that all return.
\<close>

datatype call = Malloc size_t os_env | Calloc size_t size_t os_env | Free addr

fun call_state :: "call \<Rightarrow> alloc_state \<Rightarrow> alloc_state option" where
  "call_state (Malloc s os) st =
     (case mymalloc s os st of Some (Inr (p, st')) \<Rightarrow> Some st' | _ \<Rightarrow> None)"
| "call_state (Calloc n m os) st =
     (case mycalloc n m os st of Some (Inr (p, st')) \<Rightarrow> Some st' | _ \<Rightarrow> None)"
| "call_state (Free q) st =
     (case myfree q st of Some (Inr (u, st')) \<Rightarrow> Some st' | _ \<Rightarrow> None)"

fun run :: "call list \<Rightarrow> alloc_state \<Rightarrow> alloc_state option" where
  "run [] st = Some st"
| "run (c # cs) st = (case call_state c st of None \<Rightarrow> None | Some st' \<Rightarrow> run cs st')"

subsection \<open>Example states\<close>

text \<open>A process that has not allocated yet, with its program break at \<open>0x1000\<close>.\<close>

definition fresh_state :: alloc_state where
  "fresh_state =
     \<lparr>head = NULL, heap = Map.empty, brk = 0x1000, mem = (\<lambda>a. 0xFF),
      memChange = False, listChange = False\<rparr>"

text \<open>The state after \<^verbatim>\<open>mymalloc(16)\<close> in \<open>fresh_state\<close>: one block, in use.\<close>

definition one_block_state :: alloc_state where
  "one_block_state =
     \<lparr>head = 0x1000,
      heap = [0x1000 \<mapsto> \<lparr>size_b = 16, next_b = NULL, free_b = 0\<rparr>],
      brk = 0x1028, mem = (\<lambda>a. 0xFF), memChange = False, listChange = False\<rparr>"

text \<open>
  Three blocks in creation order: one of 16 bytes in use, then free blocks of 200 and of
  50 bytes.
\<close>

definition two_free_state :: alloc_state where
  "two_free_state =
     \<lparr>head = 0x1000,
      heap = [0x1000 \<mapsto> \<lparr>size_b = 16, next_b = 0x1028, free_b = 0\<rparr>,
              0x1028 \<mapsto> \<lparr>size_b = 200, next_b = 0x1108, free_b = 1\<rparr>,
              0x1108 \<mapsto> \<lparr>size_b = 50, next_b = NULL, free_b = 1\<rparr>],
      brk = 0x1152, mem = (\<lambda>a. 0xFF), memChange = False, listChange = False\<rparr>"

text \<open>An operating system that grants every request, and one that refuses every request.\<close>

definition os_grant :: os_env where
  "os_grant = \<lparr>sbrk_ok = True, mmap_ret = 0x7F0000000000, PAGE_SIZE = 4096\<rparr>"

definition os_refuse :: os_env where
  "os_refuse = \<lparr>sbrk_ok = False, mmap_ret = MAP_FAILED, PAGE_SIZE = 4096\<rparr>"

text \<open>Two blocks: one of 16 bytes in use, then, last in the list, a free block of 100 bytes.\<close>

definition freed_state :: alloc_state where
  "freed_state =
     \<lparr>head = 0x1000,
      heap = [0x1000 \<mapsto> \<lparr>size_b = 16, next_b = 0x1028, free_b = 0\<rparr>,
              0x1028 \<mapsto> \<lparr>size_b = 100, next_b = NULL, free_b = 1\<rparr>],
      brk = 0x10A4, mem = (\<lambda>a. 0xFF), memChange = False, listChange = False\<rparr>"

text \<open>
  A process that has not allocated yet and whose program break was raised before, from
  \<open>0x1000\<close> to \<open>0x1840\<close>: the page up to \<open>0x2000\<close> is mapped, and \<^verbatim>\<open>sbrk\<close> can move the
  break down again.
\<close>

definition raised_state :: alloc_state where
  "raised_state =
     \<lparr>head = NULL, heap = Map.empty, brk = 0x1840, mem = (\<lambda>a. 0xFF),
      memChange = False, listChange = False\<rparr>"

text \<open>
  The state after a first allocation of \<open>2 ^ 64 - 88\<close> bytes and two allocations of 8 bytes
  in \<open>raised_state\<close>, all granted. For the first, \<^verbatim>\<open>s + BLOCK_SIZE\<close> is \<open>2 ^ 64 - 64\<close>, which
  \<^verbatim>\<open>sbrk\<close>, whose parameter is a signed \<^verbatim>\<open>intptr_t\<close>, takes as \<open>-64\<close>: the break moves down
  from \<open>0x1840\<close> to \<open>0x1800\<close>, and the two small blocks bring it back to \<open>0x1840\<close>, the
  address of the head.
\<close>

definition wrapped_state :: alloc_state where
  "wrapped_state =
     \<lparr>head = 0x1840,
      heap = [0x1840 \<mapsto> \<lparr>size_b = - 88, next_b = 0x1800, free_b = 0\<rparr>,
              0x1800 \<mapsto> \<lparr>size_b = 8, next_b = 0x1820, free_b = 0\<rparr>,
              0x1820 \<mapsto> \<lparr>size_b = 8, next_b = NULL, free_b = 0\<rparr>],
      brk = 0x1840, mem = (\<lambda>a. 0xFF), memChange = False, listChange = False\<rparr>"

subsection \<open>Headers in memory\<close>



text \<open>
  The store \<open>heap\<close> holds each header as one entry under its address. Two stores to the
  same address meet in one entry, as they do in memory. Two headers less than one header
  size apart share bytes in memory, where a store to a field of one changes the other;
  the entries of \<open>heap\<close> do not show that. So \<open>heap\<close> describes the memory of the program
  as long as its headers are \<open>separated\<close>: any two of them at different addresses are
  \<open>apart\<close>, which is to say that they share no byte. No call takes a header out of
  \<open>heap\<close>, so the headers of a state include the headers of every state before it.
\<close>

definition apart :: "addr \<Rightarrow> addr \<Rightarrow> bool" where
  "apart p q \<longleftrightarrow> BLOCK_SIZE \<le> p - q \<and> BLOCK_SIZE \<le> q - p"

definition separated :: "addr set \<Rightarrow> bool" where
  "separated A \<longleftrightarrow> (\<forall>p\<in>A. \<forall>q\<in>A. p \<noteq> q \<longrightarrow> apart p q)"

subsection \<open>The rounded page total\<close>

text \<open>
  The rounded page total of the specification, over the natural numbers: the number of
  pages of \<open>P\<close> bytes that \<open>n\<close> bytes need, and the bytes that these pages hold.
\<close>

definition pages_for :: "nat \<Rightarrow> nat \<Rightarrow> nat" where
  "pages_for n P = (n + P - 1) div P"

definition rounded_total :: "nat \<Rightarrow> nat \<Rightarrow> nat" where
  "rounded_total n P = pages_for n P * P"

text \<open>
  The test for a single header as \<^verbatim>\<open>allocMap\<close> makes it, over the natural numbers, for the
  \<open>n\<close> bytes of a request and its header: \<open>n\<close> is a multiple of the page size, or the pages
  hold less than one more header and one byte beyond \<open>n\<close>.
\<close>

definition no_usable_remainder :: "nat \<Rightarrow> nat \<Rightarrow> bool" where
  "no_usable_remainder n P \<longleftrightarrow>
     n mod P = 0 \<or> rounded_total n P - n < unat BLOCK_SIZE + 1"

text \<open>
  The addresses at which a direct mapping for \<open>s\<close> bytes writes headers: the mapped address,
  and the address \<open>s\<close> plus one header size further when there is a usable remainder.
\<close>

definition mapped_headers :: "size_t \<Rightarrow> os_env \<Rightarrow> addr set" where
  "mapped_headers s os =
     (if no_usable_remainder (unat s + unat BLOCK_SIZE) (unat (PAGE_SIZE os))
      then {mmap_ret os}
      else {mmap_ret os, mmap_ret os + s + BLOCK_SIZE})"

section \<open>Properties of the list\<close>

lemma chain_last:
  "chain h a xs \<Longrightarrow> xs \<noteq> [] \<Longrightarrow> \<exists>b. h (last xs) = Some b \<and> next_b b = NULL"
  by (induction xs arbitrary: a) (auto split: option.splits)


lemma nextBlock_loop_chain:
  "chain (heap st) a xs \<Longrightarrow> xs \<noteq> [] \<Longrightarrow>
   nextBlock_loop s a st =
     (case find (fits_at (heap st) s) (butlast xs) of
        Some x \<Rightarrow> Some (Inr (Return x, take_block x st))
      | None \<Rightarrow> Some (Inr (Exit (last xs), st)))"
proof (induction xs arbitrary: a)
  case Nil
  then show ?case by simp
next
  case (Cons x xs)
  from Cons.prems obtain b where b: "a = x" "x \<noteq> NULL" "heap st x = Some b" "chain (heap st) (next_b b) xs"
    by (auto split: option.splits)
  show ?case
  proof (cases xs)
    case Nil
    with b show ?thesis by (subst nextBlock_loop.simps) simp
  next
    case (Cons y ys)
    with b have nn: "next_b b \<noteq> NULL" by auto
    have IH: "nextBlock_loop s (next_b b) st =
     (case find (fits_at (heap st) s) (butlast xs) of
        Some x \<Rightarrow> Some (Inr (Return x, take_block x st))
      | None \<Rightarrow> Some (Inr (Exit (last xs), st)))"
      using Cons.IH [OF b(4)] Cons by simp
    have bl: "butlast (x # xs) = x # butlast xs" "last (x # xs) = last xs"
      using Cons by simp_all
    show ?thesis
      unfolding bl
      by (subst nextBlock_loop.simps) (simp add: b nn IH fits_at_def take_block_def)
  qed
qed

lemma chain_nonempty: "chain h a xs \<Longrightarrow> a \<noteq> NULL \<Longrightarrow> xs \<noteq> []"
  by (cases xs) auto





lemma find_snoc:
  "find P (butlast xs) = None \<Longrightarrow> xs \<noteq> [] \<Longrightarrow>
   find P xs = (if P (last xs) then Some (last xs) else None)"
  by (induction xs) (auto split: if_splits)

lemma find_butlast_Some:
  "find P (butlast xs) = Some x \<Longrightarrow> find P xs = Some x"
  by (induction xs) (auto split: if_splits)

lemma find_first:
  "xs = pre @ a # post \<Longrightarrow> \<forall>x\<in>set pre. \<not> P x \<Longrightarrow> P a \<Longrightarrow> find P xs = Some a"
  by (induction pre arbitrary: xs) auto

section \<open>What each operation returns\<close>

lemma init_mem_ok:
  "\<not> memChange st \<Longrightarrow> \<not> listChange st \<Longrightarrow> sbrk_ok os \<Longrightarrow>
   init_mem s os st =
     Some (Inr (brk st,
       st\<lparr>head := brk st,
          heap := (heap st)(brk st \<mapsto> \<lparr>size_b = s, next_b = NULL, free_b = 0\<rparr>),
          brk := brk st + (s + BLOCK_SIZE)\<rparr>))"
  by (cases st) (simp add: init_mem_def)

lemma init_mem_fail:
  "\<not> memChange st \<Longrightarrow> \<not> sbrk_ok os \<Longrightarrow>
   init_mem s os st = Some (Inr (NULL, st\<lparr>memChange := True\<rparr>))"
  by (simp add: init_mem_def)

lemma expandHeap_ok:
  "\<not> memChange st \<Longrightarrow> \<not> listChange st \<Longrightarrow> sbrk_ok os \<Longrightarrow> heap st l = Some lb \<Longrightarrow>
   expandHeap s l os st =
     Some (Inr (brk st,
       st\<lparr>heap := (heap st)(l \<mapsto> lb\<lparr>next_b := brk st\<rparr>,
                             brk st \<mapsto> \<lparr>size_b = s, next_b = NULL, free_b = 0\<rparr>),
          brk := brk st + (s + BLOCK_SIZE)\<rparr>))"
  by (cases st) (simp add: expandHeap_def)

lemma expandHeap_fail:
  "\<not> memChange st \<Longrightarrow> \<not> sbrk_ok os \<Longrightarrow>
   expandHeap s l os st = Some (Inr (NULL, st\<lparr>memChange := True\<rparr>))"
  by (simp add: expandHeap_def)

lemma allocMap_fail:
  "\<not> memChange st \<Longrightarrow> mmap_ret os = MAP_FAILED \<Longrightarrow>
   allocMap s l os st = Some (Inr (NULL, st))"
  by (simp add: allocMap_def)

lemma allocMap_single:
  "\<not> memChange st \<Longrightarrow> \<not> listChange st \<Longrightarrow> mmap_ret os \<noteq> MAP_FAILED \<Longrightarrow>
   PAGE_SIZE os \<noteq> 0 \<Longrightarrow> heap st l = Some lb \<Longrightarrow> no_split s (PAGE_SIZE os) \<Longrightarrow>
   allocMap s l os st =
     Some (Inr (mmap_ret os,
       st\<lparr>heap := (heap st)(l \<mapsto> lb\<lparr>next_b := mmap_ret os\<rparr>,
                             mmap_ret os \<mapsto> \<lparr>size_b = s, next_b = NULL, free_b = 0\<rparr>)\<rparr>))"
  by (cases st) (simp add: allocMap_def Let_def)

lemma allocMap_split:
  "\<not> memChange st \<Longrightarrow> \<not> listChange st \<Longrightarrow> mmap_ret os \<noteq> MAP_FAILED \<Longrightarrow>
   PAGE_SIZE os \<noteq> 0 \<Longrightarrow> heap st l = Some lb \<Longrightarrow> \<not> no_split s (PAGE_SIZE os) \<Longrightarrow>
   allocMap s l os st =
     Some (Inr (mmap_ret os,
       st\<lparr>heap := (heap st)(l \<mapsto> lb\<lparr>next_b := mmap_ret os\<rparr>,
                mmap_ret os \<mapsto>
                  \<lparr>size_b = s, next_b = mmap_ret os + s + BLOCK_SIZE, free_b = 0\<rparr>,
                mmap_ret os + s + BLOCK_SIZE \<mapsto>
                  \<lparr>size_b = mapped_bytes s (PAGE_SIZE os) - s - 2 * BLOCK_SIZE,
                   next_b = NULL, free_b = 1\<rparr>)\<rparr>))"
  by (cases st) (simp add: allocMap_def Let_def)

lemma nextBlock_found:
  assumes "chain (heap st) (head st) xs" "\<not> listChange st"
    and "find (fits_at (heap st) s) xs = Some a" "heap st a = Some b"
  shows "nextBlock s os st = Some (Inr (a, st\<lparr>heap := (heap st)(a \<mapsto> b\<lparr>free_b := 0\<rparr>)\<rparr>))"
proof -
  from assms(3) have ne: "xs \<noteq> []" by auto
  let ?st = "st\<lparr>listChange := True\<rparr>"
  have ch: "chain (heap ?st) (head st) xs" using assms(1) by simp
  have res: "take_block a ?st = st\<lparr>heap := (heap st)(a \<mapsto> b\<lparr>free_b := 0\<rparr>)\<rparr>"
    using assms(2,4) by (cases st) (simp add: take_block_def)
  note loop = nextBlock_loop_chain [OF ch ne, of s]
  show ?thesis
  proof (cases "find (fits_at (heap st) s) (butlast xs)")
    case (Some x)
    with assms(3) have "x = a" using find_butlast_Some [of "fits_at (heap st) s" xs x] by simp
    with Some loop res assms(2) show ?thesis by (simp add: nextBlock_def)
  next
    case None
    with assms(3) ne have la: "last xs = a" "fits_at (heap st) s a"
      using find_snoc [of "fits_at (heap st) s" xs] by (auto split: if_splits)
    then have fb: "fits s b" using assms(4) by (simp add: fits_at_def)
    have "st\<lparr>listChange := True, heap := (heap st)(a \<mapsto> b\<lparr>free_b := 0\<rparr>), listChange := False\<rparr>
          = st\<lparr>heap := (heap st)(a \<mapsto> b\<lparr>free_b := 0\<rparr>)\<rparr>"
      using assms(2) by (cases st) simp
    with None loop la fb assms(2,4) show ?thesis by (simp add: nextBlock_def)
  qed
qed

lemma nextBlock_grow:
  assumes "chain (heap st) (head st) xs" "\<not> listChange st" "xs \<noteq> []"
    and "find (fits_at (heap st) s) xs = None"
  shows "nextBlock s os st =
           (if PAGE_SIZE os \<le> s + BLOCK_SIZE then allocMap s (last xs) os st
            else expandHeap s (last xs) os st)"
proof -
  let ?st = "st\<lparr>listChange := True\<rparr>"
  have ch: "chain (heap ?st) (head st) xs" using assms(1) by simp
  note loop = nextBlock_loop_chain [OF ch assms(3), of s]
  from assms(4) have n1: "find (fits_at (heap st) s) (butlast xs) = None"
    by (auto simp: find_None_iff dest: in_set_butlastD)
  from assms(3,4) have n2: "\<not> fits_at (heap st) s (last xs)"
    by (auto simp: find_None_iff)
  from chain_last [OF assms(1,3)] obtain lb where lb: "heap st (last xs) = Some lb" by blast
  have eq: "st\<lparr>listChange := False\<rparr> = st" using assms(2) by (cases st) simp
  from loop n1 n2 lb assms(2) show ?thesis
    by (simp add: nextBlock_def fits_at_def eq)
qed

lemma find_none_fits:
  "(\<forall>x\<in>set xs. \<forall>c. h x = Some c \<longrightarrow> \<not> (free_b c \<noteq> 0 \<and> s \<le> size_b c)) \<Longrightarrow>
   find (fits_at h s) xs = None"
  by (auto simp: find_None_iff fits_at_def fits_def split: option.splits)

section \<open>The cases of an allocation that returns\<close>


lemma find_Some_fits:
  "find (fits_at h s) xs = Some a \<Longrightarrow> a \<in> set xs \<and> (\<exists>b. h a = Some b \<and> fits s b)"
  by (auto simp: find_Some_iff fits_at_def split: option.splits)


section \<open>The list only grows at its end\<close>





lemma new_headers_length: "length (new_headers s os st xs) \<le> 2"
  by (simp add: new_headers_def)


lemma mycalloc_mymalloc:
  assumes "mycalloc n m os st = Some (Inr (p, st'))"
  obtains st1 where "mymalloc (n * m) os st = Some (Inr (p, st1))" "st' = memset p 0 (n * m) st1"
  using assms by (auto simp: mycalloc_def Let_def split: option.splits sum.splits)

lemma memset_fields [simp]:
  "head (memset p c n st) = head st" "heap (memset p c n st) = heap st"
  "brk (memset p c n st) = brk st" "memChange (memset p c n st) = memChange st"
  "listChange (memset p c n st) = listChange st"
  by (simp_all add: memset_def)

section \<open>Headers stay in the store\<close>

lemma nextBlock_loop_result:
  assumes "nextBlock_loop s i st = Some y"
  shows "loop_post st y"
proof (rule nextBlock_loop.raw_induct [OF _ assms, where P = "\<lambda>s i st y. loop_post st y"])
  fix f :: "size_t \<Rightarrow> addr \<Rightarrow> alloc_state \<Rightarrow> (error + loop_end \<times> alloc_state) option"
  fix s i st y
  assume IH: "\<And>s i st y. f s i st = Some y \<Longrightarrow> loop_post st y"
  assume eq: "(case heap st i of None \<Rightarrow> Some (Inl SIGSEGV)
      | Some b \<Rightarrow>
          if next_b b \<noteq> NULL
          then if fits s b
               then Some (Inr (Return i,
                           st\<lparr>heap := (heap st)(i \<mapsto> b\<lparr>free_b := 0\<rparr>), listChange := False\<rparr>))
               else f s (next_b b) st
          else Some (Inr (Exit i, st))) = Some y"
  show "loop_post st y"
  proof (cases "heap st i")
    case None
    with eq show ?thesis by (auto simp: loop_post_def)
  next
    case (Some b)
    show ?thesis
    proof (cases "next_b b \<noteq> NULL \<and> \<not> fits s b")
      case True
      with eq Some have "f s (next_b b) st = Some y" by simp
      then show ?thesis by (rule IH)
    next
      case False
      with eq Some show ?thesis by (auto simp: loop_post_def split: if_splits)
    qed
  qed
qed







section \<open>The example states\<close>

lemma one_block_chain: "chain (heap one_block_state) (head one_block_state) [0x1000]"
  by (simp add: one_block_state_def NULL_def)

lemma one_block_grow:
  "mymalloc 8 os_grant one_block_state =
     Some (Inr (0x1040,
       one_block_state\<lparr>heap := [0x1000 \<mapsto> \<lparr>size_b = 16, next_b = 0x1028, free_b = 0\<rparr>,
                                0x1028 \<mapsto> \<lparr>size_b = 8, next_b = NULL, free_b = 0\<rparr>],
                       brk := 0x1048\<rparr>))"
proof -
  have nl: "\<not> listChange one_block_state" and nm: "\<not> memChange one_block_state"
    and hd: "head one_block_state \<noteq> NULL"
    by (simp_all add: one_block_state_def NULL_def)
  have nf: "find (fits_at (heap one_block_state) 8) [0x1000] = None"
    by (simp add: fits_at_def fits_def one_block_state_def)
  have lb: "heap one_block_state (last [0x1000]) = Some \<lparr>size_b = 16, next_b = NULL, free_b = 0\<rparr>"
    by (simp add: one_block_state_def)
  have "nextBlock 8 os_grant one_block_state = expandHeap 8 (last [0x1000]) os_grant one_block_state"
    using nextBlock_grow [OF one_block_chain nl _ nf, of os_grant]
    by (simp add: os_grant_def BLOCK_SIZE_def)
  also have "\<dots> = Some (Inr (0x1028,
       one_block_state\<lparr>heap := [0x1000 \<mapsto> \<lparr>size_b = 16, next_b = 0x1028, free_b = 0\<rparr>,
                                0x1028 \<mapsto> \<lparr>size_b = 8, next_b = NULL, free_b = 0\<rparr>],
                       brk := 0x1048\<rparr>))"
    using expandHeap_ok [OF nm nl _ lb, of os_grant 8]
    by (simp add: os_grant_def one_block_state_def BLOCK_SIZE_def)
  finally show ?thesis
    using nl hd by (simp add: mymalloc_def NULL_def BLOCK_SIZE_def)
qed

section \<open>The block of a successful allocation\<close>



lemma sub_add_BLOCK [simp]: "p + BLOCK_SIZE - BLOCK_SIZE = p" "p - BLOCK_SIZE + BLOCK_SIZE = p"
  by simp_all


section \<open>Faults and termination\<close>

lemma nextBlock_null_head:
  assumes "head st = NULL" "heap st NULL = None" "\<not> listChange st"
  shows "nextBlock s os st = Some (Inl SIGSEGV)"
proof -
  have "nextBlock_loop s NULL (st\<lparr>listChange := True\<rparr>) = Some (Inl SIGSEGV)"
    using assms(2) by (subst nextBlock_loop.simps) simp
  with assms(1,3) show ?thesis by (simp add: nextBlock_def)
qed

lemma bootstrap_no_fault: "head st = NULL \<Longrightarrow> mymalloc s os st \<noteq> Some (Inl e)"
  by (auto simp: mymalloc_def init_mem_def Let_def split: if_splits)

lemma mymalloc_returns:
  assumes wf: "chain (heap st) (head st) xs"
    and "\<not> memChange st" "\<not> listChange st" "PAGE_SIZE os \<noteq> 0"
  shows "\<exists>p st'. mymalloc s os st = Some (Inr (p, st'))"
proof (cases "head st = NULL")
  case True
  with assms(2,3) show ?thesis
    by (cases "sbrk_ok os") (simp_all add: mymalloc_def init_mem_ok init_mem_fail)
next
  case False
  with wf have ne: "xs \<noteq> []" by (rule chain_nonempty)
  have "\<exists>q st'. nextBlock s os st = Some (Inr (q, st'))"
  proof (cases "find (fits_at (heap st) s) xs")
    case (Some a)
    from find_Some_fits [OF Some] obtain b where "heap st a = Some b" by blast
    from nextBlock_found [OF wf assms(3) Some this] show ?thesis by blast
  next
    case None
    from chain_last [OF wf ne] obtain lb where lb: "heap st (last xs) = Some lb" by blast
    note grow = nextBlock_grow [OF wf assms(3) ne None, of os]
    show ?thesis
    proof (cases "PAGE_SIZE os \<le> s + BLOCK_SIZE")
      case True
      show ?thesis
      proof (cases "mmap_ret os = MAP_FAILED")
        case True
        with grow \<open>PAGE_SIZE os \<le> s + BLOCK_SIZE\<close> allocMap_fail [OF assms(2) True]
        show ?thesis by simp
      next
        case False
        with grow True allocMap_single [OF assms(2,3) False assms(4) lb]
          allocMap_split [OF assms(2,3) False assms(4) lb]
        show ?thesis by (cases "no_split s (PAGE_SIZE os)") simp_all
      qed
    next
      case False
      with grow expandHeap_ok [OF assms(2,3) _ lb] expandHeap_fail [OF assms(2)]
      show ?thesis by (cases "sbrk_ok os") simp_all
    qed
  qed
  then obtain q st' where "nextBlock s os st = Some (Inr (q, st'))" by blast
  with False assms(3) show ?thesis by (simp add: mymalloc_def)
qed

section \<open>The page arithmetic when nothing overflows\<close>

lemma ucast_small:
  assumes "unat (w :: 64 word) < 2 ^ 32"
  shows "unat (ucast w :: 32 word) = unat w"
  using assms by (simp add: unsigned_ucast_eq take_bit_nat_eq_self)

lemma scast_small:
  assumes "unat (t :: 32 word) < 2 ^ 31"
  shows "unat (scast t :: 64 word) = unat t"
proof -
  have "int (unat t) < int (2 ^ 31)" using assms by (simp only: of_nat_less_iff)
  then have u: "uint t < 2 ^ 31" by simp
  have "- (2 ^ 31) \<le> uint t" by (rule order_trans [of _ 0]) simp_all
  then have "signed_take_bit 31 (uint t) = uint t"
    using u by (rule signed_take_bit_int_eq_self)
  then have "sint t = uint t"
    by (simp add: sint_uint)
  then have "(scast t :: 64 word) = ucast t"
    by (simp only: scast_eq ucast_eq)
  then show ?thesis
    using assms by (simp add: unsigned_ucast_eq take_bit_nat_eq_self)
qed

lemma div_add_multiple: "0 < P \<Longrightarrow> (x + q * P) div P = q + x div (P :: nat)"
  by simp

lemma pages_for_eq:
  assumes "0 < P"
  shows "pages_for n P = n div P + (if n mod P = 0 then 0 else 1)"
proof -
  have "n + P - 1 = n div P * P + (n mod P + P - 1)"
    using assms by (simp add: algebra_simps)
  then have "pages_for n P = (n mod P + P - 1 + n div P * P) div P"
    by (simp only: pages_for_def add.commute)
  also have "\<dots> = n div P + (n mod P + P - 1) div P"
    using assms by (rule div_add_multiple)
  finally have "pages_for n P = n div P + (n mod P + P - 1) div P" .
  moreover have "(n mod P + P - 1) div P = (if n mod P = 0 then 0 else 1)"
  proof (cases "n mod P = 0")
    case True
    then show ?thesis using assms by simp
  next
    case False
    have "n mod P < P" using assms by simp
    with False have "P \<le> n mod P + P - 1" "n mod P + P - 1 < 2 * P" by simp_all
    then have "(n mod P + P - 1) div P = 1" by (intro div_nat_eqI) simp_all
    with False show ?thesis by simp
  qed
  ultimately show ?thesis by simp
qed

lemma rounded_total_bounds:
  assumes "0 < P"
  shows "n \<le> rounded_total n P" and "rounded_total n P < n + P"
    and "n mod P = 0 \<Longrightarrow> rounded_total n P = n"
proof -
  have e: "rounded_total n P = n div P * P + (if n mod P = 0 then 0 else P)"
    using assms by (simp add: rounded_total_def pages_for_eq algebra_simps)
  have d: "n = n div P * P + n mod P" by simp
  have m: "n mod P < P" using assms by simp
  define a r R where "a = n div P * P" and "r = n mod P" and "R = rounded_total n P"
  have e': "R = a + (if r = 0 then 0 else P)" using e by (simp add: a_def r_def R_def)
  have d': "n = a + r" using d by (simp add: a_def r_def)
  have m': "r < P" using m by (simp add: r_def)
  have "n \<le> R \<and> R < n + P \<and> (r = 0 \<longrightarrow> R = n)"
    using e' d' m' assms by (cases "r = 0") simp_all
  then show "n \<le> rounded_total n P" "rounded_total n P < n + P"
    "n mod P = 0 \<Longrightarrow> rounded_total n P = n"
    by (simp_all add: r_def R_def)
qed

lemma totPage_pages:
  assumes pg: "pg \<noteq> 0"
    and nowrap: "unat s + 24 < 2 ^ 64"
    and pages: "pages_for (unat s + 24) (unat pg) < 2 ^ 31"
  shows "unat (totPage s pg) = pages_for (unat s + 24) (unat pg)"
    and "((s + BLOCK_SIZE) mod pg = 0) = ((unat s + 24) mod unat pg = 0)"
proof -
  have P: "0 < unat pg" using pg by (simp add: unat_gt_0)
  note pf = pages_for_eq [OF P, of "unat s + 24"]
  have n: "unat (s + BLOCK_SIZE) = unat s + 24"
    using nowrap by (simp add: BLOCK_SIZE_def unat_word_ariths)
  have d: "unat ((s + BLOCK_SIZE) div pg) = (unat s + 24) div unat pg"
    by (simp add: unat_div n)
  have "unat ((s + BLOCK_SIZE) mod pg) = (unat s + 24) mod unat pg"
    by (simp add: unat_mod n)
  then show m: "((s + BLOCK_SIZE) mod pg = 0) = ((unat s + 24) mod unat pg = 0)"
    by (metis unat_0_iff)
  have q: "(unat s + 24) div unat pg < 2 ^ 31" using pages pf by (simp split: if_splits)
  then have "unat ((s + BLOCK_SIZE) div pg) < 2 ^ 32" using d by simp
  then have u: "unat (ucast ((s + BLOCK_SIZE) div pg) :: 32 word) = (unat s + 24) div unat pg"
    using d by (simp add: ucast_small)
  show "unat (totPage s pg) = pages_for (unat s + 24) (unat pg)"
    using pages u m unfolding pf by (simp add: totPage_def Let_def unat_word_ariths)
qed

lemma mapped_bytes_rounded:
  assumes pg: "pg \<noteq> 0"
    and nowrap: "unat s + 24 < 2 ^ 64"
    and pages: "pages_for (unat s + 24) (unat pg) < 2 ^ 31"
    and bytes: "rounded_total (unat s + 24) (unat pg) < 2 ^ 64"
  shows "unat (mapped_bytes s pg) = rounded_total (unat s + 24) (unat pg)"
proof -
  have "unat (totPage s pg) = pages_for (unat s + 24) (unat pg)"
    using pg nowrap pages by (rule totPage_pages)
  with pages have "unat (scast (totPage s pg) :: 64 word) = pages_for (unat s + 24) (unat pg)"
    by (simp add: scast_small)
  with bytes show ?thesis
    by (simp add: mapped_bytes_def rounded_total_def unat_word_ariths)
qed

lemma no_split_arith:
  assumes pg: "pg \<noteq> 0"
    and nowrap: "unat s + 24 < 2 ^ 64"
    and pages: "pages_for (unat s + 24) (unat pg) < 2 ^ 31"
    and bytes: "rounded_total (unat s + 24) (unat pg) < 2 ^ 64"
  shows "no_split s pg \<longleftrightarrow>
           (unat s + 24) mod unat pg = 0 \<or>
           rounded_total (unat s + 24) (unat pg) - unat s - 24 < 24 + 1"
    and "\<not> no_split s pg \<Longrightarrow>
           mapped_bytes s pg - s - 2 * BLOCK_SIZE =
             of_nat (rounded_total (unat s + 24) (unat pg) - unat s - 2 * 24)"
proof -
  let ?M = "rounded_total (unat s + 24) (unat pg)"
  have P: "0 < unat pg" using pg by (simp add: unat_gt_0)
  have M: "unat (mapped_bytes s pg) = ?M" using assms by (rule mapped_bytes_rounded)
  have ge: "unat s + 24 \<le> ?M" using P by (rule rounded_total_bounds)
  have s1: "unat (mapped_bytes s pg - s) = ?M - unat s"
    using ge M by (simp add: unat_sub word_le_nat_alt)
  have b: "unat BLOCK_SIZE = 24" by (simp add: BLOCK_SIZE_def)
  have s2: "unat (mapped_bytes s pg - s - BLOCK_SIZE) = ?M - unat s - 24"
    using ge s1 b by (simp add: unat_sub word_le_nat_alt)
  have lt: "(mapped_bytes s pg - s - BLOCK_SIZE < BLOCK_SIZE + 1) = (?M - unat s - 24 < 24 + 1)"
    using s2 by (simp add: word_less_nat_alt BLOCK_SIZE_def)
  show iff: "no_split s pg \<longleftrightarrow> (unat s + 24) mod unat pg = 0 \<or> ?M - unat s - 24 < 24 + 1"
    using totPage_pages(2) [OF pg nowrap pages] lt by (simp add: no_split_def)
  assume "\<not> no_split s pg"
  with iff have big: "25 \<le> ?M - unat s - 24" by simp
  have le: "BLOCK_SIZE \<le> mapped_bytes s pg - s - BLOCK_SIZE"
    using big s2 b by (simp add: word_le_nat_alt)
  have "unat (mapped_bytes s pg - s - BLOCK_SIZE - BLOCK_SIZE) =
          unat (mapped_bytes s pg - s - BLOCK_SIZE) - unat BLOCK_SIZE"
    using le by (rule unat_sub)
  also have "\<dots> = ?M - unat s - 2 * 24" unfolding s2 b by simp
  finally have "unat (mapped_bytes s pg - s - BLOCK_SIZE - BLOCK_SIZE) = ?M - unat s - 2 * 24" .
  moreover have "mapped_bytes s pg - s - BLOCK_SIZE - BLOCK_SIZE =
                   mapped_bytes s pg - s - 2 * BLOCK_SIZE"
    by simp
  ultimately have "unat (mapped_bytes s pg - s - 2 * BLOCK_SIZE) = ?M - unat s - 2 * 24"
    by (simp only:)
  then show "mapped_bytes s pg - s - 2 * BLOCK_SIZE = of_nat (?M - unat s - 2 * 24)"
    by (metis of_nat_unat ucast_id)
qed

text \<open>
  When the page count fits an \<^verbatim>\<open>int\<close> and the byte total fits a \<^verbatim>\<open>long\<close>, the test of
  \<^verbatim>\<open>allocMap\<close> is the test on the rounded page total, and the size of the second header is
  what the pages hold beyond the request and two headers.
\<close>

lemma no_split_remainder:
  assumes pg: "pg \<noteq> 0"
    and pages: "pages_for (unat s + unat BLOCK_SIZE) (unat pg) < 2 ^ 31"
    and bytes: "rounded_total (unat s + unat BLOCK_SIZE) (unat pg) < 2 ^ 63"
  shows "no_split s pg \<longleftrightarrow> no_usable_remainder (unat s + unat BLOCK_SIZE) (unat pg)"
    and "\<not> no_split s pg \<Longrightarrow>
           mapped_bytes s pg - s - 2 * BLOCK_SIZE =
             of_nat (rounded_total (unat s + unat BLOCK_SIZE) (unat pg)
                       - unat s - 2 * unat BLOCK_SIZE)"
    and "unat (s + BLOCK_SIZE) = unat s + unat BLOCK_SIZE"
proof -
  have b: "unat BLOCK_SIZE = 24" by (simp add: BLOCK_SIZE_def)
  have P: "0 < unat pg" using pg by (simp add: unat_gt_0)
  have "unat s + 24 \<le> rounded_total (unat s + 24) (unat pg)"
    using P by (rule rounded_total_bounds)
  also have "\<dots> < 2 ^ 63" using bytes by (simp add: b)
  finally have lt: "unat s + 24 < 2 ^ 63" .
  have "(2 :: nat) ^ 63 < 2 ^ 64" by simp
  with lt have nowrap: "unat s + 24 < 2 ^ 64" by (rule less_trans)
  from bytes have "rounded_total (unat s + 24) (unat pg) < 2 ^ 63" by (simp add: b)
  from this \<open>(2 :: nat) ^ 63 < 2 ^ 64\<close>
  have bytes': "rounded_total (unat s + 24) (unat pg) < 2 ^ 64" by (rule less_trans)
  from pages have pages': "pages_for (unat s + 24) (unat pg) < 2 ^ 31" by (simp add: b)
  note ns = no_split_arith [OF pg nowrap pages' bytes']
  have "rounded_total (unat s + 24) (unat pg) - unat s - 24 =
          rounded_total (unat s + 24) (unat pg) - (unat s + 24)" by simp
  with ns(1)
  show "no_split s pg \<longleftrightarrow> no_usable_remainder (unat s + unat BLOCK_SIZE) (unat pg)"
    by (simp add: no_usable_remainder_def b)
  show "unat (s + BLOCK_SIZE) = unat s + unat BLOCK_SIZE"
    using nowrap by (simp add: BLOCK_SIZE_def unat_word_ariths)
  assume "\<not> no_split s pg"
  from ns(2) [OF this]
  show "mapped_bytes s pg - s - 2 * BLOCK_SIZE =
          of_nat (rounded_total (unat s + unat BLOCK_SIZE) (unat pg)
                    - unat s - 2 * unat BLOCK_SIZE)"
    by (simp add: b)
qed

text \<open>
  The test that the specification words, with two header sizes subtracted, is weaker than
  the test of the code: where it finds a remainder, the code splits.
\<close>

lemma spec_remainder_implies_split:
  assumes pg: "pg \<noteq> 0"
    and pages: "pages_for (unat s + unat BLOCK_SIZE) (unat pg) < 2 ^ 31"
    and bytes: "rounded_total (unat s + unat BLOCK_SIZE) (unat pg) < 2 ^ 63"
    and rem: "\<not> spec_no_remainder s pg"
  shows "\<not> no_split s pg"
proof -
  have b: "unat BLOCK_SIZE = 24" by (simp add: BLOCK_SIZE_def)
  let ?n = "unat s + 24" and ?P = "unat pg"
  let ?R = "rounded_total ?n ?P"
  have P: "0 < ?P" using pg by (simp add: unat_gt_0)
  have "?n \<le> ?R" using P by (rule rounded_total_bounds)
  also have "?R < 2 ^ 63" using bytes by (simp add: b)
  finally have "?n < 2 ^ 63" .
  then have nowrap: "?n < 2 ^ 64" by simp
  from bytes have bytes': "?R < 2 ^ 64" by (simp add: b)
  from pages have pages': "pages_for ?n ?P < 2 ^ 31" by (simp add: b)
  have M: "unat (mapped_bytes s pg) = ?R"
    using pg nowrap pages' bytes' by (rule mapped_bytes_rounded)
  from rem have r: "int ?R \<noteq> int (unat s) + 24" "\<not> int ?R - int (unat s) - 48 < 25"
    by (simp_all add: spec_no_remainder_def BLOCK_SIZE_def M)
  have nz: "?n mod ?P \<noteq> 0"
  proof
    assume "?n mod ?P = 0"
    with P have "?R = ?n" by (rule rounded_total_bounds)
    with r(1) show False by simp
  qed
  from r(2) have "\<not> ?R - ?n < 25" by linarith
  with nz have "\<not> no_usable_remainder (unat s + unat BLOCK_SIZE) ?P"
    by (simp add: no_usable_remainder_def b)
  with no_split_remainder(1) [OF pg pages bytes] show ?thesis by simp
qed

section \<open>Headers that share no byte\<close>




section \<open>The head is kept, and the list is read safely\<close>

lemma nextBlock_head:
  assumes "nextBlock s os st = Some (Inr (q, st'))"
  shows "head st' = head st"
proof -
  from assms have nl: "\<not> listChange st" by (auto simp: nextBlock_def split: if_splits)
  let ?st = "st\<lparr>listChange := True\<rparr>"
  from assms nl obtain y where y: "nextBlock_loop s (head st) ?st = Some y"
    by (auto simp: nextBlock_def split: option.splits)
  note post = nextBlock_loop_result [OF y, unfolded loop_post_def]
  show ?thesis
  proof (cases y)
    case (Inl e)
    with assms nl y show ?thesis by (simp add: nextBlock_def)
  next
    case (Inr r)
    obtain e st1 where r: "r = (e, st1)" by (cases r)
    show ?thesis
    proof (cases e)
      case (Return j)
      with post Inr r assms nl y show ?thesis
        by (auto simp: nextBlock_def)
    next
      case (Exit j)
      with post Inr r have st1: "st1 = ?st" by simp
      from assms nl y Inr r Exit st1 show ?thesis
        by (auto simp: nextBlock_def allocMap_def expandHeap_def Let_def
            split: option.splits if_splits)
    qed
  qed
qed

lemma mymalloc_head:
  assumes "mymalloc s os st = Some (Inr (p, st'))" "head st \<noteq> NULL"
  shows "head st' = head st"
proof -
  from assms obtain q where "nextBlock s os st = Some (Inr (q, st'))"
    by (auto simp: mymalloc_def split: if_splits option.splits sum.splits)
  then show ?thesis by (rule nextBlock_head)
qed

lemma mycalloc_head:
  assumes "mycalloc n m os st = Some (Inr (p, st'))" "head st \<noteq> NULL"
  shows "head st' = head st"
proof -
  from assms(1) obtain st1 where "mymalloc (n * m) os st = Some (Inr (p, st1))"
    "st' = memset p 0 (n * m) st1" by (rule mycalloc_mymalloc)
  with mymalloc_head [OF this(1) assms(2)] show ?thesis by simp
qed

lemma myfree_head: "myfree q st = Some (Inr (u, st')) \<Longrightarrow> head st' = head st"
  by (auto simp: myfree_def Let_def split: option.splits)

lemma mymalloc_no_segv:
  assumes wf: "chain (heap st) (head st) xs"
  shows "mymalloc s os st \<noteq> Some (Inl SIGSEGV)"
proof (cases "head st = NULL \<or> listChange st")
  case True
  then show ?thesis
  proof
    assume "head st = NULL"
    then show ?thesis by (rule bootstrap_no_fault)
  next
    assume "listChange st"
    then show ?thesis by (simp add: mymalloc_def)
  qed
next
  case False
  then have hd: "head st \<noteq> NULL" and nl: "\<not> listChange st" by simp_all
  from wf hd have ne: "xs \<noteq> []" by (rule chain_nonempty)
  have "nextBlock s os st \<noteq> Some (Inl SIGSEGV)"
  proof (cases "find (fits_at (heap st) s) xs")
    case (Some a)
    from find_Some_fits [OF Some] obtain b where "heap st a = Some b" by blast
    from nextBlock_found [OF wf nl Some this] show ?thesis by simp
  next
    case None
    from chain_last [OF wf ne] obtain lb where lb: "heap st (last xs) = Some lb" by blast
    from nextBlock_grow [OF wf nl ne None, of os] lb show ?thesis
      by (auto simp: allocMap_def expandHeap_def Let_def split: if_splits)
  qed
  with hd nl show ?thesis
    by (auto simp: mymalloc_def split: option.splits sum.splits if_splits)
qed

section \<open>A first request that moves the break down\<close>

lemma mymalloc_grow:
  assumes "chain (heap st) (head st) xs" "xs \<noteq> []"
    and "\<not> memChange st" "\<not> listChange st"
    and "find (fits_at (heap st) s) xs = None"
    and "\<not> PAGE_SIZE os \<le> s + BLOCK_SIZE" "sbrk_ok os" "brk st \<noteq> NULL"
    and "heap st (last xs) = Some lb"
  shows "mymalloc s os st =
           Some (Inr (brk st + BLOCK_SIZE,
             st\<lparr>heap := (heap st)(last xs \<mapsto> lb\<lparr>next_b := brk st\<rparr>,
                                   brk st \<mapsto> \<lparr>size_b = s, next_b = NULL, free_b = 0\<rparr>),
                brk := brk st + (s + BLOCK_SIZE)\<rparr>))"
proof -
  from assms(1,2) have hd: "head st \<noteq> NULL" by (cases xs) auto
  have "nextBlock s os st = expandHeap s (last xs) os st"
    using nextBlock_grow [OF assms(1,4,2,5), of os] assms(6) by simp
  also note expandHeap_ok [OF assms(3,4,7,9), of s]
  finally show ?thesis using hd assms(4,8) by (simp add: mymalloc_def)
qed

lemma wrapped_step1:
  "mymalloc (- 88) os_grant raised_state =
     Some (Inr (0x1858, raised_state\<lparr>head := 0x1840,
        heap := [0x1840 \<mapsto> \<lparr>size_b = - 88, next_b = NULL, free_b = 0\<rparr>], brk := 0x1800\<rparr>))"
  by (simp add: mymalloc_def init_mem_def raised_state_def os_grant_def BLOCK_SIZE_def NULL_def)

lemma wrapped_step2:
  "mymalloc 8 os_grant (raised_state\<lparr>head := 0x1840,
        heap := [0x1840 \<mapsto> \<lparr>size_b = - 88, next_b = NULL, free_b = 0\<rparr>], brk := 0x1800\<rparr>) =
     Some (Inr (0x1818, raised_state\<lparr>head := 0x1840,
        heap := [0x1840 \<mapsto> \<lparr>size_b = - 88, next_b = 0x1800, free_b = 0\<rparr>,
                 0x1800 \<mapsto> \<lparr>size_b = 8, next_b = NULL, free_b = 0\<rparr>], brk := 0x1820\<rparr>))"
  (is "mymalloc 8 os_grant ?st = _")
proof -
  have "mymalloc 8 os_grant ?st =
           Some (Inr (brk ?st + BLOCK_SIZE,
             ?st\<lparr>heap := (heap ?st)(last [0x1840] \<mapsto> \<lparr>size_b = - 88, next_b = NULL, free_b = 0\<rparr>\<lparr>next_b := brk ?st\<rparr>,
                                   brk ?st \<mapsto> \<lparr>size_b = 8, next_b = NULL, free_b = 0\<rparr>),
                brk := brk ?st + (8 + BLOCK_SIZE)\<rparr>))"
    by (rule mymalloc_grow [where xs = "[0x1840]"])
      (simp_all add: raised_state_def os_grant_def BLOCK_SIZE_def NULL_def fits_at_def fits_def)
  then show ?thesis
    by (simp add: raised_state_def BLOCK_SIZE_def)
qed

lemma wrapped_step3:
  "mymalloc 8 os_grant (raised_state\<lparr>head := 0x1840,
        heap := [0x1840 \<mapsto> \<lparr>size_b = - 88, next_b = 0x1800, free_b = 0\<rparr>,
                 0x1800 \<mapsto> \<lparr>size_b = 8, next_b = NULL, free_b = 0\<rparr>], brk := 0x1820\<rparr>) =
     Some (Inr (0x1838, wrapped_state))"
  (is "mymalloc 8 os_grant ?st = _")
proof -
  have "mymalloc 8 os_grant ?st =
           Some (Inr (brk ?st + BLOCK_SIZE,
             ?st\<lparr>heap := (heap ?st)(last [0x1840, 0x1800] \<mapsto>
                                     \<lparr>size_b = 8, next_b = NULL, free_b = 0\<rparr>\<lparr>next_b := brk ?st\<rparr>,
                                   brk ?st \<mapsto> \<lparr>size_b = 8, next_b = NULL, free_b = 0\<rparr>),
                brk := brk ?st + (8 + BLOCK_SIZE)\<rparr>))"
    by (rule mymalloc_grow [where xs = "[0x1840, 0x1800]"])
      (simp_all add: raised_state_def os_grant_def BLOCK_SIZE_def NULL_def fits_at_def fits_def)
  then show ?thesis
    by (simp add: raised_state_def wrapped_state_def BLOCK_SIZE_def)
qed

lemma wrapped_chain: "chain (heap wrapped_state) (head wrapped_state) [0x1840, 0x1800, 0x1820]"
  by (simp add: wrapped_state_def NULL_def)

lemma wrapped_step4:
  "mymalloc 8 os_grant wrapped_state =
     Some (Inr (0x1858,
       wrapped_state\<lparr>heap := (heap wrapped_state)
           (0x1820 \<mapsto> \<lparr>size_b = 8, next_b = 0x1840, free_b = 0\<rparr>,
            0x1840 \<mapsto> \<lparr>size_b = 8, next_b = NULL, free_b = 0\<rparr>),
         brk := 0x1860\<rparr>))"
proof -
  have "mymalloc 8 os_grant wrapped_state =
           Some (Inr (brk wrapped_state + BLOCK_SIZE,
             wrapped_state\<lparr>heap := (heap wrapped_state)(last [0x1840, 0x1800, 0x1820] \<mapsto>
                    \<lparr>size_b = 8, next_b = NULL, free_b = 0\<rparr>\<lparr>next_b := brk wrapped_state\<rparr>,
                  brk wrapped_state \<mapsto> \<lparr>size_b = 8, next_b = NULL, free_b = 0\<rparr>),
                brk := brk wrapped_state + (8 + BLOCK_SIZE)\<rparr>))"
    using wrapped_chain
    by (rule mymalloc_grow)
      (simp_all add: wrapped_state_def os_grant_def BLOCK_SIZE_def NULL_def fits_at_def fits_def)
  then show ?thesis
    by (simp add: wrapped_state_def BLOCK_SIZE_def)
qed

section \<open>The claims\<close>

subsection \<open>Bootstrap\<close>

lemma bootstrap_failure:
  assumes "head st = NULL" and "\<not> memChange st" and "\<not> listChange st" and "\<not> sbrk_ok os"
  shows "mymalloc s os st = Some (Inr (NULL + BLOCK_SIZE, st\<lparr>memChange := True\<rparr>))"
  using assms by (simp add: mymalloc_def init_mem_fail)

text \<open>
  C1 (fails on the code): when \<^verbatim>\<open>sbrk\<close> refuses the first allocation, \<^verbatim>\<open>init_mem\<close>
  returns \<open>NULL\<close> and \<^verbatim>\<open>mymalloc\<close> returns \<^verbatim>\<open>(block_t *) NULL + 1\<close>, the address 24,
  not a null pointer, for every size (\<open>bootstrap_failure\<close>). \<^verbatim>\<open>head\<close> stays
  uninitialised, but \<^verbatim>\<open>memChange\<close> stays locked, so the next allocation waits for it for
  ever.
\<close>

theorem bootstrap_failure_not_null:
  "mymalloc 100 os_refuse fresh_state = Some (Inr (24, fresh_state\<lparr>memChange := True\<rparr>)) \<and>
   (24 :: addr) \<noteq> NULL \<and>
   mymalloc 100 os_grant (fresh_state\<lparr>memChange := True\<rparr>) = None"
  by (simp add: mymalloc_def init_mem_def fresh_state_def os_refuse_def os_grant_def
      BLOCK_SIZE_def NULL_def)

text \<open>
  C7: the first allocation of \<open>n\<close> bytes in a state whose \<^verbatim>\<open>head\<close> is uninitialised, when
  \<^verbatim>\<open>sbrk\<close> grants the extension, writes exactly one header, at the old program break:
  in use, of size \<open>n\<close>, with an empty \<^verbatim>\<open>next\<close>. It becomes \<^verbatim>\<open>head\<close>, and the pointer
  returned is the address just after it.
\<close>

theorem first_allocation_bootstraps:
  assumes "head st = NULL" and "\<not> memChange st" and "\<not> listChange st" and "sbrk_ok os"
  shows "mymalloc n os st =
           Some (Inr (brk st + BLOCK_SIZE,
             st\<lparr>head := brk st,
                heap := (heap st)(brk st \<mapsto> \<lparr>size_b = n, next_b = NULL, free_b = 0\<rparr>),
                brk := brk st + (n + BLOCK_SIZE)\<rparr>))"
  using assms by (simp add: mymalloc_def init_mem_ok)

theorem first_allocation_bootstraps_witness:
  "head fresh_state = NULL \<and> \<not> memChange fresh_state \<and> \<not> listChange fresh_state \<and>
   sbrk_ok os_grant \<and>
   mymalloc 100 os_grant fresh_state =
     Some (Inr (0x1018,
       \<lparr>head = 0x1000, heap = [0x1000 \<mapsto> \<lparr>size_b = 100, next_b = NULL, free_b = 0\<rparr>],
        brk = 0x107C, mem = (\<lambda>a. 0xFF), memChange = False, listChange = False\<rparr>))"
  using first_allocation_bootstraps [of fresh_state os_grant 100]
  by (simp add: fresh_state_def os_grant_def BLOCK_SIZE_def NULL_def)

subsection \<open>Zero-allocate\<close>

text \<open>
  C2 (fails on the code): \<^verbatim>\<open>mycalloc\<close> calls \<^verbatim>\<open>memset\<close> on whatever \<^verbatim>\<open>mymalloc\<close> returned.
  With one block in use and \<^verbatim>\<open>sbrk\<close> refusing, \<^verbatim>\<open>mycalloc(1, 8)\<close> gets \<open>NULL\<close> from
  \<^verbatim>\<open>mymalloc\<close> and zero-fills the 8 bytes at address \<open>NULL\<close>.
\<close>

theorem zero_fill_after_failed_allocate:
  "mycalloc 1 8 os_refuse one_block_state =
     Some (Inr (NULL, memset NULL 0 8 (one_block_state\<lparr>memChange := True\<rparr>))) \<and>
   mem one_block_state NULL = 0xFF \<and>
   mem (memset NULL 0 8 (one_block_state\<lparr>memChange := True\<rparr>)) NULL = 0"
proof -
  have ch: "chain (heap one_block_state) (head one_block_state) [0x1000]"
    by (simp add: one_block_state_def NULL_def)
  have nl: "\<not> listChange one_block_state" and nm: "\<not> memChange one_block_state"
    and hd: "head one_block_state \<noteq> NULL"
    by (simp_all add: one_block_state_def NULL_def)
  have nf: "find (fits_at (heap one_block_state) 8) [0x1000] = None"
    by (simp add: fits_at_def fits_def one_block_state_def)
  have "nextBlock 8 os_refuse one_block_state = expandHeap 8 (last [0x1000]) os_refuse one_block_state"
    using nextBlock_grow [OF ch nl _ nf, of os_refuse]
    by (simp add: os_refuse_def BLOCK_SIZE_def)
  also have "\<dots> = Some (Inr (NULL, one_block_state\<lparr>memChange := True\<rparr>))"
    using nm by (rule expandHeap_fail) (simp add: os_refuse_def)
  finally have "mymalloc 8 os_refuse one_block_state =
      Some (Inr (NULL, one_block_state\<lparr>memChange := True\<rparr>))"
    using nl hd by (simp add: mymalloc_def)
  then have "mycalloc 1 8 os_refuse one_block_state =
     Some (Inr (NULL, memset NULL 0 8 (one_block_state\<lparr>memChange := True\<rparr>)))"
    by (simp add: mycalloc_def)
  moreover have "mem one_block_state NULL = 0xFF"
    by (simp add: one_block_state_def)
  moreover have "mem (memset NULL 0 8 (one_block_state\<lparr>memChange := True\<rparr>)) NULL = 0"
    by (simp add: memset_def)
  ultimately show ?thesis by blast
qed

subsection \<open>List search\<close>

text \<open>
  C4: the search returns the first block in list order that is free and whose size is at
  least \<open>s\<close>, whatever comes after it: if the list is \<open>pre @ a # post\<close>, no block of
  \<open>pre\<close> is free and large enough, and the block at \<open>a\<close> is, then \<^verbatim>\<open>nextBlock\<close>
  returns \<open>a\<close> and marks it in use. With free blocks of 200 and 50 bytes, in this order,
  a request for 40 bytes gets the block of 200 bytes.
\<close>

theorem nextBlock_first_fit:
  assumes "chain (heap st) (head st) xs" and "\<not> listChange st"
    and "xs = pre @ a # post"
    and "\<forall>x\<in>set pre. \<forall>c. heap st x = Some c \<longrightarrow> \<not> (free_b c \<noteq> 0 \<and> s \<le> size_b c)"
    and "heap st a = Some b" and "free_b b \<noteq> 0" and "s \<le> size_b b"
  shows "nextBlock s os st = Some (Inr (a, st\<lparr>heap := (heap st)(a \<mapsto> b\<lparr>free_b := 0\<rparr>)\<rparr>))"
proof -
  have pre: "\<forall>x\<in>set pre. \<not> fits_at (heap st) s x"
    using assms(4) by (auto simp: fits_at_def fits_def split: option.splits)
  have a: "fits_at (heap st) s a"
    using assms(5-7) by (simp add: fits_at_def fits_def)
  from assms(3) pre a have "find (fits_at (heap st) s) xs = Some a"
    by (rule find_first)
  with assms(1,2) show ?thesis using assms(5) by (rule nextBlock_found)
qed

theorem nextBlock_first_fit_witness:
  "chain (heap two_free_state) (head two_free_state) [0x1000, 0x1028, 0x1108] \<and>
   \<not> listChange two_free_state \<and>
   heap two_free_state 0x1028 = Some \<lparr>size_b = 200, next_b = 0x1108, free_b = 1\<rparr> \<and>
   heap two_free_state 0x1108 = Some \<lparr>size_b = 50, next_b = NULL, free_b = 1\<rparr> \<and>
   nextBlock 40 os_grant two_free_state =
     Some (Inr (0x1028,
       two_free_state\<lparr>heap := (heap two_free_state)
         (0x1028 \<mapsto> \<lparr>size_b = 200, next_b = 0x1108, free_b = 0\<rparr>)\<rparr>))"
proof -
  have h1: "chain (heap two_free_state) (head two_free_state) [0x1000, 0x1028, 0x1108]"
    by (simp add: two_free_state_def NULL_def)
  have h2: "\<not> listChange two_free_state"
    by (simp add: two_free_state_def)
  have h3: "[0x1000, 0x1028, 0x1108] = [0x1000] @ 0x1028 # [0x1108 :: addr]"
    by simp
  have h4: "\<forall>x\<in>set [0x1000]. \<forall>c. heap two_free_state x = Some c \<longrightarrow>
              \<not> (free_b c \<noteq> 0 \<and> 40 \<le> size_b c)"
    by (simp add: two_free_state_def)
  have h5: "heap two_free_state 0x1028 = Some \<lparr>size_b = 200, next_b = 0x1108, free_b = 1\<rparr>"
    by (simp add: two_free_state_def)
  have h6: "heap two_free_state 0x1108 = Some \<lparr>size_b = 50, next_b = NULL, free_b = 1\<rparr>"
    by (simp add: two_free_state_def)
  have "nextBlock 40 os_grant two_free_state =
     Some (Inr (0x1028,
       two_free_state\<lparr>heap := (heap two_free_state)
         (0x1028 \<mapsto> \<lparr>size_b = 200, next_b = 0x1108, free_b = 0\<rparr>)\<rparr>))"
    using nextBlock_first_fit [OF h1 h2 h3 h4 h5, of os_grant] by simp
  with h1 h2 h5 h6 show ?thesis by blast
qed

subsection \<open>Direct mapping\<close>



text \<open>
  C3 as stated fails twice. With pages of 4096 bytes, a request for 8138 bytes maps 8192
  bytes; after \<open>s\<close> and two headers 6 bytes are left, fewer than 25, so the claim's
  condition holds, but the code subtracts one header, finds 30, and writes two headers. And
  a request for 8158 bytes gets a single header whose size field is 8158, the request, not
  the mapped 8192 bytes.
\<close>

theorem single_header_spec_counterexample:
  "spec_no_remainder 8138 (PAGE_SIZE os_grant) \<and>
   allocMap 8138 0x1000 os_grant one_block_state =
     Some (Inr (0x7F0000000000,
       one_block_state\<lparr>heap :=
         [0x1000 \<mapsto> \<lparr>size_b = 16, next_b = 0x7F0000000000, free_b = 0\<rparr>,
          0x7F0000000000 \<mapsto> \<lparr>size_b = 8138, next_b = 0x7F0000001FE2, free_b = 0\<rparr>,
          0x7F0000001FE2 \<mapsto> \<lparr>size_b = 6, next_b = NULL, free_b = 1\<rparr>]\<rparr>)) \<and>
   mapped_bytes 8158 (PAGE_SIZE os_grant) = 8192 \<and>
   allocMap 8158 0x1000 os_grant one_block_state =
     Some (Inr (0x7F0000000000,
       one_block_state\<lparr>heap :=
         [0x1000 \<mapsto> \<lparr>size_b = 16, next_b = 0x7F0000000000, free_b = 0\<rparr>,
          0x7F0000000000 \<mapsto> \<lparr>size_b = 8158, next_b = NULL, free_b = 0\<rparr>]\<rparr>))"
proof -
  have t1: "totPage 8138 4096 = 2" and t2: "totPage 8158 4096 = 2"
    by (simp_all add: totPage_def BLOCK_SIZE_def)
  have m1: "mapped_bytes 8138 4096 = 8192" and m2: "mapped_bytes 8158 4096 = 8192"
    by (simp_all add: mapped_bytes_def t1 t2)
  have a: "spec_no_remainder 8138 (PAGE_SIZE os_grant)"
    by (simp add: spec_no_remainder_def os_grant_def m1 BLOCK_SIZE_def)
  have n1: "\<not> no_split 8138 4096" and n2: "no_split 8158 4096"
    by (simp_all add: no_split_def m1 m2 BLOCK_SIZE_def)
  have b: "allocMap 8138 0x1000 os_grant one_block_state =
     Some (Inr (0x7F0000000000,
       one_block_state\<lparr>heap :=
         [0x1000 \<mapsto> \<lparr>size_b = 16, next_b = 0x7F0000000000, free_b = 0\<rparr>,
          0x7F0000000000 \<mapsto> \<lparr>size_b = 8138, next_b = 0x7F0000001FE2, free_b = 0\<rparr>,
          0x7F0000001FE2 \<mapsto> \<lparr>size_b = 6, next_b = NULL, free_b = 1\<rparr>]\<rparr>))"
    by (simp add: allocMap_def os_grant_def one_block_state_def MAP_FAILED_def n1 m1
        BLOCK_SIZE_def NULL_def)
  have c: "allocMap 8158 0x1000 os_grant one_block_state =
     Some (Inr (0x7F0000000000,
       one_block_state\<lparr>heap :=
         [0x1000 \<mapsto> \<lparr>size_b = 16, next_b = 0x7F0000000000, free_b = 0\<rparr>,
          0x7F0000000000 \<mapsto> \<lparr>size_b = 8158, next_b = NULL, free_b = 0\<rparr>]\<rparr>))"
    by (simp add: allocMap_def os_grant_def one_block_state_def MAP_FAILED_def n2
        BLOCK_SIZE_def NULL_def)
  from a b c m2 show ?thesis by (simp add: os_grant_def)
qed

text \<open>
  C3 (amended): a direct-mapping request for \<open>s\<close> bytes that \<^verbatim>\<open>mmap\<close> grants, with \<open>l\<close> the
  last block of the list, when nothing overflows (the number of pages fits the \<^verbatim>\<open>int\<close> that
  counts them, and their bytes fit a \<^verbatim>\<open>long\<close>) and the headers of the store and the new
  ones share no byte. Exactly when \<open>s\<close> plus the header size is a multiple of the page size,
  or what is left of the rounded page total after subtracting \<open>s\<close> and one header size is
  smaller than the header size plus one, the allocator writes a single header, at the
  mapped address: in use, with an empty \<^verbatim>\<open>next\<close>, linked after \<open>l\<close>, and with the size field
  \<open>s\<close>. Otherwise it writes the two headers of the split, the second with the rounded page
  total minus \<open>s\<close> and two header sizes as its size.
\<close>

theorem single_header_exactly_when:
  assumes "\<not> memChange st" and "\<not> listChange st"
    and "mmap_ret os \<noteq> MAP_FAILED" and "PAGE_SIZE os \<noteq> 0"
    and "heap st l = Some lb"
    and "pages_for (unat s + unat BLOCK_SIZE) (unat (PAGE_SIZE os)) < 2 ^ 31"
    and "rounded_total (unat s + unat BLOCK_SIZE) (unat (PAGE_SIZE os)) < 2 ^ 63"
    and "separated (dom (heap st) \<union> mapped_headers s os)"
  shows "allocMap s l os st =
           Some (Inr (mmap_ret os,
             st\<lparr>heap :=
               (if (unat s + unat BLOCK_SIZE) mod unat (PAGE_SIZE os) = 0 \<or>
                   rounded_total (unat s + unat BLOCK_SIZE) (unat (PAGE_SIZE os))
                     - unat s - unat BLOCK_SIZE < unat BLOCK_SIZE + 1
                then (heap st)
                  (l \<mapsto> lb\<lparr>next_b := mmap_ret os\<rparr>,
                   mmap_ret os \<mapsto> \<lparr>size_b = s, next_b = NULL, free_b = 0\<rparr>)
                else (heap st)
                  (l \<mapsto> lb\<lparr>next_b := mmap_ret os\<rparr>,
                   mmap_ret os \<mapsto>
                     \<lparr>size_b = s, next_b = mmap_ret os + s + BLOCK_SIZE, free_b = 0\<rparr>,
                   mmap_ret os + s + BLOCK_SIZE \<mapsto>
                     \<lparr>size_b = of_nat
                        (rounded_total (unat s + unat BLOCK_SIZE) (unat (PAGE_SIZE os))
                           - unat s - 2 * unat BLOCK_SIZE),
                      next_b = NULL, free_b = 1\<rparr>))\<rparr>))"
proof -
  note ar = no_split_remainder [OF assms(4,6,7)]
  have c: "no_split s (PAGE_SIZE os) \<longleftrightarrow>
             (unat s + unat BLOCK_SIZE) mod unat (PAGE_SIZE os) = 0 \<or>
             rounded_total (unat s + unat BLOCK_SIZE) (unat (PAGE_SIZE os))
               - unat s - unat BLOCK_SIZE < unat BLOCK_SIZE + 1"
    unfolding ar(1) by (simp add: no_usable_remainder_def)
  show ?thesis
  proof (cases "no_split s (PAGE_SIZE os)")
    case True
    from allocMap_single [OF assms(1-5) True] True show ?thesis
      unfolding c by simp
  next
    case False
    from allocMap_split [OF assms(1-5) False] False show ?thesis
      unfolding c ar(2) [OF False] by simp
  qed
qed

theorem single_header_exactly_when_witness:
  "\<not> memChange one_block_state \<and> \<not> listChange one_block_state \<and>
   mmap_ret os_grant \<noteq> MAP_FAILED \<and> PAGE_SIZE os_grant \<noteq> 0 \<and>
   heap one_block_state 0x1000 = Some \<lparr>size_b = 16, next_b = NULL, free_b = 0\<rparr> \<and>
   rounded_total (unat (12240 :: size_t) + unat BLOCK_SIZE) (unat (PAGE_SIZE os_grant)) = 12288 \<and>
   allocMap 12240 0x1000 os_grant one_block_state =
     Some (Inr (0x7F0000000000,
       one_block_state\<lparr>heap :=
         [0x1000 \<mapsto> \<lparr>size_b = 16, next_b = 0x7F0000000000, free_b = 0\<rparr>,
          0x7F0000000000 \<mapsto> \<lparr>size_b = 12240, next_b = NULL, free_b = 0\<rparr>]\<rparr>)) \<and>
   rounded_total (unat (12239 :: size_t) + unat BLOCK_SIZE) (unat (PAGE_SIZE os_grant)) = 12288 \<and>
   allocMap 12239 0x1000 os_grant one_block_state =
     Some (Inr (0x7F0000000000,
       one_block_state\<lparr>heap :=
         [0x1000 \<mapsto> \<lparr>size_b = 16, next_b = 0x7F0000000000, free_b = 0\<rparr>,
          0x7F0000000000 \<mapsto> \<lparr>size_b = 12239, next_b = 0x7F0000002FE7, free_b = 0\<rparr>,
          0x7F0000002FE7 \<mapsto> \<lparr>size_b = 1, next_b = NULL, free_b = 1\<rparr>]\<rparr>))"
proof -
  have h1: "\<not> memChange one_block_state" and h2: "\<not> listChange one_block_state"
    and h5: "heap one_block_state 0x1000 = Some \<lparr>size_b = 16, next_b = NULL, free_b = 0\<rparr>"
    by (simp_all add: one_block_state_def)
  have h3: "mmap_ret os_grant \<noteq> MAP_FAILED" and h4: "PAGE_SIZE os_grant \<noteq> 0"
    by (simp_all add: os_grant_def MAP_FAILED_def)
  have rt: "rounded_total (unat (12240 :: size_t) + unat BLOCK_SIZE) (unat (PAGE_SIZE os_grant))
              = 12288"
    and rt': "rounded_total (unat (12239 :: size_t) + unat BLOCK_SIZE) (unat (PAGE_SIZE os_grant))
              = 12288"
    by (simp_all add: rounded_total_def pages_for_def os_grant_def BLOCK_SIZE_def)
  have h6: "pages_for (unat (12240 :: size_t) + unat BLOCK_SIZE) (unat (PAGE_SIZE os_grant))
              < 2 ^ 31"
    and h6': "pages_for (unat (12239 :: size_t) + unat BLOCK_SIZE) (unat (PAGE_SIZE os_grant))
              < 2 ^ 31"
    by (simp_all add: pages_for_def os_grant_def BLOCK_SIZE_def)
  have h7: "rounded_total (unat (12240 :: size_t) + unat BLOCK_SIZE) (unat (PAGE_SIZE os_grant))
              < 2 ^ 63"
    unfolding rt by simp
  have h7': "rounded_total (unat (12239 :: size_t) + unat BLOCK_SIZE) (unat (PAGE_SIZE os_grant))
              < 2 ^ 63"
    unfolding rt' by simp
  have mh: "mapped_headers 12240 os_grant = {0x7F0000000000}"
    unfolding mapped_headers_def no_usable_remainder_def rt
    by (simp add: os_grant_def BLOCK_SIZE_def)
  have mh': "mapped_headers 12239 os_grant = {0x7F0000000000, 0x7F0000002FE7}"
    unfolding mapped_headers_def no_usable_remainder_def rt'
    by (simp add: os_grant_def BLOCK_SIZE_def)
  have h8: "separated (dom (heap one_block_state) \<union> mapped_headers 12240 os_grant)"
    unfolding mh by (simp add: separated_def apart_def one_block_state_def BLOCK_SIZE_def)
  have h8': "separated (dom (heap one_block_state) \<union> mapped_headers 12239 os_grant)"
    unfolding mh' by (simp add: separated_def apart_def one_block_state_def BLOCK_SIZE_def)
  have a: "allocMap 12240 0x1000 os_grant one_block_state =
     Some (Inr (0x7F0000000000,
       one_block_state\<lparr>heap :=
         [0x1000 \<mapsto> \<lparr>size_b = 16, next_b = 0x7F0000000000, free_b = 0\<rparr>,
          0x7F0000000000 \<mapsto> \<lparr>size_b = 12240, next_b = NULL, free_b = 0\<rparr>]\<rparr>))"
    using single_header_exactly_when [OF h1 h2 h3 h4 h5 h6 h7 h8] unfolding rt
    by (simp add: os_grant_def BLOCK_SIZE_def one_block_state_def NULL_def)
  have b: "allocMap 12239 0x1000 os_grant one_block_state =
     Some (Inr (0x7F0000000000,
       one_block_state\<lparr>heap :=
         [0x1000 \<mapsto> \<lparr>size_b = 16, next_b = 0x7F0000000000, free_b = 0\<rparr>,
          0x7F0000000000 \<mapsto> \<lparr>size_b = 12239, next_b = 0x7F0000002FE7, free_b = 0\<rparr>,
          0x7F0000002FE7 \<mapsto> \<lparr>size_b = 1, next_b = NULL, free_b = 1\<rparr>]\<rparr>))"
    using single_header_exactly_when [OF h1 h2 h3 h4 h5 h6' h7' h8'] unfolding rt'
    by (simp add: os_grant_def BLOCK_SIZE_def one_block_state_def NULL_def)
  from h1 h2 h3 h4 h5 rt a rt' b show ?thesis by blast
qed

subsection \<open>Release and reuse\<close>



subsection \<open>The list is append-only\<close>

text \<open>
  C8: the list is not append-only in every run of calls that return. Neither \<^verbatim>\<open>init_mem\<close>
  nor \<^verbatim>\<open>expandHeap\<close> checks that \<^verbatim>\<open>s + BLOCK_SIZE\<close> is a size by which \<^verbatim>\<open>sbrk\<close> can raise the
  break. In \<open>raised_state\<close> a first \<^verbatim>\<open>mymalloc(2 ^ 64 - 88)\<close> passes \<^verbatim>\<open>sbrk\<close> the sum
  \<open>2 ^ 64 - 64\<close>, which lowers the break by 64 bytes, and two calls \<^verbatim>\<open>mymalloc(8)\<close> bring
  the break back to the address of the head: this is \<open>wrapped_state\<close>, whose list holds
  three headers, any two of them apart. The next \<^verbatim>\<open>mymalloc(8)\<close> grows the segment there: it
  links the head after the last header and then writes the new header over the head, with
  an empty \<^verbatim>\<open>next\<close>. The list reached from \<^verbatim>\<open>head\<close> is then the head alone: the call has
  appended nothing and two headers are gone from the list. (The pointer that it returns is
  the one of the first allocation, which is still in use.)
\<close>

theorem oversized_request_cuts_list:
  "run [Malloc (- 88) os_grant, Malloc 8 os_grant, Malloc 8 os_grant] raised_state =
     Some wrapped_state \<and>
   chain (heap wrapped_state) (head wrapped_state) [0x1840, 0x1800, 0x1820] \<and>
   apart 0x1840 0x1800 \<and> apart 0x1840 0x1820 \<and> apart 0x1800 0x1820 \<and>
   mymalloc 8 os_grant wrapped_state =
     Some (Inr (0x1858,
       wrapped_state\<lparr>heap := (heap wrapped_state)
           (0x1820 \<mapsto> \<lparr>size_b = 8, next_b = 0x1840, free_b = 0\<rparr>,
            0x1840 \<mapsto> \<lparr>size_b = 8, next_b = NULL, free_b = 0\<rparr>),
         brk := 0x1860\<rparr>)) \<and>
   chain ((heap wrapped_state)
           (0x1820 \<mapsto> \<lparr>size_b = 8, next_b = 0x1840, free_b = 0\<rparr>,
            0x1840 \<mapsto> \<lparr>size_b = 8, next_b = NULL, free_b = 0\<rparr>)) (head wrapped_state) [0x1840]"
proof -
  have "run [Malloc (- 88) os_grant, Malloc 8 os_grant, Malloc 8 os_grant] raised_state =
     Some wrapped_state"
    by (simp add: wrapped_step1 wrapped_step2 wrapped_step3)
  moreover have "chain ((heap wrapped_state)
           (0x1820 \<mapsto> \<lparr>size_b = 8, next_b = 0x1840, free_b = 0\<rparr>,
            0x1840 \<mapsto> \<lparr>size_b = 8, next_b = NULL, free_b = 0\<rparr>)) (head wrapped_state) [0x1840]"
    by (simp add: wrapped_state_def NULL_def)
  moreover have "apart 0x1840 0x1800" "apart 0x1840 0x1820" "apart 0x1800 0x1820"
    by (simp_all add: apart_def BLOCK_SIZE_def)
  ultimately show ?thesis using wrapped_chain wrapped_step4 by blast
qed

subsection \<open>Release\<close>



subsection \<open>Safety of the search\<close>

text \<open>
  C10: \<^verbatim>\<open>nextBlock\<close> reads \<^verbatim>\<open>head->next\<close> without a null check: called with a null
  \<^verbatim>\<open>head\<close> it stops with a segmentation fault. \<^verbatim>\<open>mymalloc\<close> does not call it then: with a
  null \<^verbatim>\<open>head\<close> it takes the bootstrap path, and it never ends with a segmentation fault,
  neither then nor when the list is well-formed. With a \<^verbatim>\<open>head\<close> that
  is not null and a well-formed list \<open>xs\<close>, the loop ends and reads no header through a null
  pointer; when no block before the last one fits, it ends at the last block, and
  \<^verbatim>\<open>nextBlock\<close> tests that block too, returning it when it fits.
\<close>

theorem search_traversal:
  "(head st = NULL \<and> heap st NULL = None \<and> \<not> listChange st \<longrightarrow>
      nextBlock s os st = Some (Inl SIGSEGV)) \<and>
   (head st = NULL \<or> chain (heap st) (head st) xs \<longrightarrow>
      mymalloc s os st \<noteq> Some (Inl SIGSEGV)) \<and>
   (head st \<noteq> NULL \<and> chain (heap st) (head st) xs \<longrightarrow>
      (\<exists>e st1. nextBlock_loop s (head st) st = Some (Inr (e, st1))) \<and>
      ((\<forall>x\<in>set (butlast xs). \<forall>c. heap st x = Some c \<longrightarrow> \<not> (free_b c \<noteq> 0 \<and> s \<le> size_b c)) \<longrightarrow>
         nextBlock_loop s (head st) st = Some (Inr (Exit (last xs), st)) \<and>
         (\<forall>b. \<not> listChange st \<and> heap st (last xs) = Some b \<and> free_b b \<noteq> 0 \<and> s \<le> size_b b \<longrightarrow>
            nextBlock s os st =
              Some (Inr (last xs, st\<lparr>heap := (heap st)(last xs \<mapsto> b\<lparr>free_b := 0\<rparr>)\<rparr>)))))"
proof (intro conjI impI allI)
  assume "head st = NULL \<and> heap st NULL = None \<and> \<not> listChange st"
  then show "nextBlock s os st = Some (Inl SIGSEGV)"
    by (simp add: nextBlock_null_head)
next
  assume "head st = NULL \<or> chain (heap st) (head st) xs"
  then show "mymalloc s os st \<noteq> Some (Inl SIGSEGV)"
    using bootstrap_no_fault [of st s os SIGSEGV] mymalloc_no_segv [of st xs s os] by blast
next
  assume a: "head st \<noteq> NULL \<and> chain (heap st) (head st) xs"
  then have wf: "chain (heap st) (head st) xs" and ne: "xs \<noteq> []"
    by (auto intro: chain_nonempty)
  note loop = nextBlock_loop_chain [OF wf ne, of s]
  show "\<exists>e st1. nextBlock_loop s (head st) st = Some (Inr (e, st1))"
    unfolding loop by (simp split: option.splits)
  assume nofit: "\<forall>x\<in>set (butlast xs). \<forall>c. heap st x = Some c \<longrightarrow>
    \<not> (free_b c \<noteq> 0 \<and> s \<le> size_b c)"
  then have nf: "find (fits_at (heap st) s) (butlast xs) = None" by (rule find_none_fits)
  with loop show "nextBlock_loop s (head st) st = Some (Inr (Exit (last xs), st))" by simp
  fix b
  assume b: "\<not> listChange st \<and> heap st (last xs) = Some b \<and> free_b b \<noteq> 0 \<and> s \<le> size_b b"
  then have "fits_at (heap st) s (last xs)" by (simp add: fits_at_def fits_def)
  with nf ne have "find (fits_at (heap st) s) xs = Some (last xs)" by (simp add: find_snoc)
  with wf b show "nextBlock s os st =
      Some (Inr (last xs, st\<lparr>heap := (heap st)(last xs \<mapsto> b\<lparr>free_b := 0\<rparr>)\<rparr>))"
    by (intro nextBlock_found) simp_all
qed

theorem search_traversal_witness:
  "nextBlock 50 os_grant fresh_state = Some (Inl SIGSEGV) \<and>
   mymalloc 50 os_grant fresh_state \<noteq> Some (Inl SIGSEGV) \<and>
   chain (heap freed_state) (head freed_state) [0x1000, 0x1028] \<and>
   nextBlock_loop 50 (head freed_state) freed_state = Some (Inr (Exit 0x1028, freed_state)) \<and>
   nextBlock 50 os_grant freed_state =
     Some (Inr (0x1028, freed_state\<lparr>heap := (heap freed_state)
        (0x1028 \<mapsto> \<lparr>size_b = 100, next_b = NULL, free_b = 0\<rparr>)\<rparr>))"
proof -
  note f = search_traversal [of fresh_state 50 os_grant "[]"]
  have f1: "head fresh_state = NULL \<and> heap fresh_state NULL = None \<and> \<not> listChange fresh_state"
    and f2: "head fresh_state = NULL \<or> chain (heap fresh_state) (head fresh_state) []"
    by (simp_all add: fresh_state_def)
  from f f1 have a: "nextBlock 50 os_grant fresh_state = Some (Inl SIGSEGV)" by blast
  from f f2 have b: "mymalloc 50 os_grant fresh_state \<noteq> Some (Inl SIGSEGV)" by blast
  note g = search_traversal [of freed_state 50 os_grant "[0x1000, 0x1028]", THEN conjunct2,
      THEN conjunct2, rule_format]
  have ch: "chain (heap freed_state) (head freed_state) [0x1000, 0x1028]"
    by (simp add: freed_state_def NULL_def)
  have g1: "head freed_state \<noteq> NULL \<and> chain (heap freed_state) (head freed_state) [0x1000, 0x1028]"
    using ch by (simp add: freed_state_def NULL_def)
  have g2: "\<forall>x\<in>set (butlast [0x1000, 0x1028]). \<forall>c. heap freed_state x = Some c \<longrightarrow>
      \<not> (free_b c \<noteq> 0 \<and> 50 \<le> size_b c)"
    by (simp add: freed_state_def)
  have g3: "\<not> listChange freed_state \<and>
      heap freed_state (last [0x1000, 0x1028]) = Some \<lparr>size_b = 100, next_b = NULL, free_b = 1\<rparr> \<and>
      free_b \<lparr>size_b = 100, next_b = NULL, free_b = 1\<rparr> \<noteq> 0 \<and>
      50 \<le> size_b \<lparr>size_b = 100, next_b = NULL, free_b = 1\<rparr>"
    by (simp add: freed_state_def)
  from g [OF g1] g2
  have c: "nextBlock_loop 50 (head freed_state) freed_state = Some (Inr (Exit 0x1028, freed_state))"
    by simp
  from g [OF g1] g2 g3
  have d: "nextBlock 50 os_grant freed_state =
     Some (Inr (0x1028, freed_state\<lparr>heap := (heap freed_state)
        (0x1028 \<mapsto> \<lparr>size_b = 100, next_b = NULL, free_b = 0\<rparr>)\<rparr>))"
    by simp
  from a b ch c d show ?thesis by blast
qed

end
